theory Spec2Isabelle
  imports Complex_Main
begin

section \<open>JavaScript numbers\<close>

text \<open>
  A JavaScript number is an IEEE 754 binary64 value. The finite nonzero values and
  \<open>+0\<close> are \<open>Fin x\<close> with \<open>x\<close> the rational the float denotes (\<open>Fin 0\<close> is \<open>+0\<close>);
  \<open>NegZero\<close> is \<open>-0\<close>. Every arithmetic operation computes the exact rational result
  and rounds it to nearest, ties to even, as the language does.
\<close>

datatype jsnum = Fin rat | NegZero | PInf | NInf | NaN

text \<open>The position of the leading bit of a positive integer: \<open>2 ^ log2n n \<le> n < 2 ^ (log2n n + 1)\<close>.\<close>

function log2n :: "int \<Rightarrow> int" where
  "log2n n = (if n < 2 then 0 else 1 + log2n (n div 2))"
  by pat_completeness auto
termination
  by (relation "measure nat") auto

declare log2n.simps [simp del]

definition pow2i :: "int \<Rightarrow> rat" where
  "pow2i e = (if 0 \<le> e then 2 ^ nat e else 1 / 2 ^ nat (- e))"

text \<open>
  \<open>ilog2 x\<close> is the binary exponent of a positive rational:
  \<open>2 ^ ilog2 x \<le> x < 2 ^ (ilog2 x + 1)\<close>. From 1 on it is the position of the leading bit
  of \<open>\<lfloor>x\<rfloor>\<close>; below 1 it is minus the least \<open>k\<close> with \<open>1 / x \<le> 2 ^ k\<close>.
\<close>

definition ilog2 :: "rat \<Rightarrow> int" where
  "ilog2 x = (if 1 \<le> x then log2n \<lfloor>x\<rfloor> else - (log2n (\<lceil>1 / x\<rceil> - 1) + 1))"

definition round_even :: "rat \<Rightarrow> int" where
  "round_even x =
     (let f = \<lfloor>x\<rfloor>; d = x - of_int f
      in if d < 1 / 2 then f
         else if 1 / 2 < d then f + 1
         else if even f then f else f + 1)"

text \<open>
  Rounding of an exact result to the binary format with \<open>p\<close> bits of precision and
  exponents \<open>emin .. emax\<close>: subnormals below \<open>2 ^ emin\<close>, an infinity from
  \<open>2 ^ (emax + 1)\<close> on, and a zero that keeps the sign of the exact result.
\<close>

definition round_to :: "nat \<Rightarrow> int \<Rightarrow> int \<Rightarrow> rat \<Rightarrow> jsnum" where
  "round_to p emin emax x =
     (if x = 0 then Fin 0
      else
        let e = max (ilog2 \<bar>x\<bar>) emin;
            q = pow2i (e - int p + 1);
            m = round_even (\<bar>x\<bar> / q);
            r = of_int m * q
        in if pow2i (emax + 1) \<le> r then (if x < 0 then NInf else PInf)
           else if m = 0 then (if x < 0 then NegZero else Fin 0)
           else Fin (if x < 0 then - r else r))"

definition round64 :: "rat \<Rightarrow> jsnum" where
  "round64 = round_to 53 (- 1022) 1023"

definition round32 :: "rat \<Rightarrow> jsnum" where
  "round32 = round_to 24 (- 126) 127"

fun is_neg :: "jsnum \<Rightarrow> bool" where
  "is_neg (Fin x) = (x < 0)"
| "is_neg NegZero = True"
| "is_neg NInf = True"
| "is_neg PInf = False"
| "is_neg NaN = False"

fun is_inf :: "jsnum \<Rightarrow> bool" where
  "is_inf PInf = True"
| "is_inf NInf = True"
| "is_inf _ = False"

text \<open>The rational a finite number denotes (both zeros denote 0).\<close>

fun val :: "jsnum \<Rightarrow> rat" where
  "val (Fin x) = x"
| "val _ = 0"

definition signed_zero :: "bool \<Rightarrow> jsnum" where
  "signed_zero neg = (if neg then NegZero else Fin 0)"

definition signed_inf :: "bool \<Rightarrow> jsnum" where
  "signed_inf neg = (if neg then NInf else PInf)"

fun jneg :: "jsnum \<Rightarrow> jsnum" where
  "jneg (Fin x) = (if x = 0 then NegZero else Fin (- x))"
| "jneg NegZero = Fin 0"
| "jneg PInf = NInf"
| "jneg NInf = PInf"
| "jneg NaN = NaN"

text \<open>\<open>x + y\<close>\<close>

definition jadd :: "jsnum \<Rightarrow> jsnum \<Rightarrow> jsnum" where
  "jadd x y =
     (if x = NaN \<or> y = NaN then NaN
      else if is_inf x then (if is_inf y \<and> y \<noteq> x then NaN else x)
      else if is_inf y then y
      else if val x + val y = 0 then signed_zero (is_neg x \<and> is_neg y)
      else round64 (val x + val y))"

text \<open>\<open>x - y\<close>\<close>

definition jsub :: "jsnum \<Rightarrow> jsnum \<Rightarrow> jsnum" where
  "jsub x y = jadd x (jneg y)"

text \<open>\<open>x * y\<close>\<close>

definition jmul :: "jsnum \<Rightarrow> jsnum \<Rightarrow> jsnum" where
  "jmul x y =
     (if x = NaN \<or> y = NaN then NaN
      else if is_inf x \<or> is_inf y then
        (if (\<not> is_inf x \<and> val x = 0) \<or> (\<not> is_inf y \<and> val y = 0) then NaN
         else signed_inf (is_neg x \<noteq> is_neg y))
      else if val x * val y = 0 then signed_zero (is_neg x \<noteq> is_neg y)
      else round64 (val x * val y))"

text \<open>\<open>x / y\<close>\<close>

definition jdiv :: "jsnum \<Rightarrow> jsnum \<Rightarrow> jsnum" where
  "jdiv x y =
     (if x = NaN \<or> y = NaN then NaN
      else if is_inf x then (if is_inf y then NaN else signed_inf (is_neg x \<noteq> is_neg y))
      else if is_inf y then signed_zero (is_neg x \<noteq> is_neg y)
      else if val y = 0 then
        (if val x = 0 then NaN else signed_inf (is_neg x \<noteq> is_neg y))
      else if val x = 0 then signed_zero (is_neg x \<noteq> is_neg y)
      else round64 (val x / val y))"

text \<open>
  \<open>x ** 2\<close>. The language fixes the result for NaN, the infinities and the zeros
  (\<open>NaN\<close>, \<open>+Infinity\<close>, \<open>+0\<close>), which the product gives as well; for the other values
  it asks for an approximation of the square, taken here to be the rounded product.
\<close>

definition pow2 :: "jsnum \<Rightarrow> jsnum" where
  "pow2 x = jmul x x"

text \<open>\<open>x < y\<close>, \<open>x <= y\<close>, \<open>x >= y\<close> and \<open>x === y\<close> on numbers: false as soon as one side is NaN.\<close>

definition jlt :: "jsnum \<Rightarrow> jsnum \<Rightarrow> bool" where
  "jlt x y =
     (if x = NaN \<or> y = NaN then False
      else if x = PInf \<or> y = NInf then False
      else if x = NInf \<or> y = PInf then True
      else val x < val y)"

definition jle :: "jsnum \<Rightarrow> jsnum \<Rightarrow> bool" where
  "jle x y = (if x = NaN \<or> y = NaN then False else \<not> jlt y x)"

definition jge :: "jsnum \<Rightarrow> jsnum \<Rightarrow> bool" where
  "jge x y = (if x = NaN \<or> y = NaN then False else \<not> jlt x y)"

definition jeq :: "jsnum \<Rightarrow> jsnum \<Rightarrow> bool" where
  "jeq x y =
     (if x = NaN \<or> y = NaN then False
      else if is_inf x \<or> is_inf y then x = y
      else val x = val y)"

text \<open>A loop counter or an array length as a number (exact: lengths stay below \<open>2 ^ 53\<close>).\<close>

definition num :: "nat \<Rightarrow> jsnum" where
  "num n = Fin (of_nat n)"

text \<open>The conversion a \<open>Float32Array\<close> applies to a number it stores.\<close>

fun fround :: "jsnum \<Rightarrow> jsnum" where
  "fround (Fin x) = round32 x"
| "fround v = v"

definition trunc :: "rat \<Rightarrow> int" where
  "trunc x = (if 0 \<le> x then \<lfloor>x\<rfloor> else \<lceil>x\<rceil>)"

text \<open>\<open>ToInt32\<close>, the conversion of the operands of \<open>&\<close>.\<close>

definition ToInt32 :: "jsnum \<Rightarrow> int" where
  "ToInt32 v =
     (case v of
        Fin x \<Rightarrow> (trunc x + 2 ^ 31) mod 2 ^ 32 - 2 ^ 31
      | _ \<Rightarrow> 0)"

definition isSafeInteger :: "jsnum \<Rightarrow> bool" where
  "isSafeInteger v =
     (case v of
        Fin x \<Rightarrow> x = of_int \<lfloor>x\<rfloor> \<and> \<bar>x\<bar> \<le> 2 ^ 53 - 1
      | NegZero \<Rightarrow> True
      | _ \<Rightarrow> False)"

section \<open>Typed arrays and the heap\<close>

text \<open>
  A \<open>Float32Array\<close> has a fixed length. A read outside it gives \<open>undefined\<close>
  (\<open>None\<close>), which arithmetic and comparisons convert to NaN; a write outside it is
  dropped; a write inside it stores the number rounded to single precision.
\<close>

definition typed_get :: "jsnum list \<Rightarrow> nat \<Rightarrow> jsnum option" where
  "typed_get a i = (if i < length a then Some (a ! i) else None)"

definition typed_set :: "jsnum list \<Rightarrow> nat \<Rightarrow> jsnum \<Rightarrow> jsnum list" where
  "typed_set a i v = (if i < length a then a[i := fround v] else a)"

fun ToNumber :: "jsnum option \<Rightarrow> jsnum" where
  "ToNumber None = NaN"
| "ToNumber (Some v) = v"

text \<open>
  The arrays live in a heap, addressed by references, so that the array the caller
  passes and the array the estimator owns are distinct objects that may or may not be
  the same one.
\<close>

type_synonym ref = nat

record heap =
  arrays :: "ref \<Rightarrow> jsnum list"
  next_ref :: ref

definition h_get :: "heap \<Rightarrow> ref \<Rightarrow> nat \<Rightarrow> jsnum option" where
  "h_get h r i = typed_get (arrays h r) i"

definition h_set :: "heap \<Rightarrow> ref \<Rightarrow> nat \<Rightarrow> jsnum \<Rightarrow> heap" where
  "h_set h r i v = h\<lparr>arrays := (arrays h)(r := typed_set (arrays h r) i v)\<rparr>"

datatype error = TypeError string | RangeError

text \<open>\<open>ToIndex\<close>, the conversion of the length given to \<open>new Float32Array(length)\<close>.\<close>

definition ToIndex :: "jsnum \<Rightarrow> error + nat" where
  "ToIndex v =
     (case v of
        Fin x \<Rightarrow> (if trunc x < 0 \<or> 2 ^ 53 - 1 < trunc x then Inl RangeError
                   else Inr (nat (trunc x)))
      | NegZero \<Rightarrow> Inr 0
      | NaN \<Rightarrow> Inr 0
      | _ \<Rightarrow> Inl RangeError)"

text \<open>
  \<open>new Float32Array(len)\<close>: a fresh array of \<open>+0\<close>, or a \<open>RangeError\<close> for a length
  that is no index or whose byte length exceeds \<open>2 ^ 53 - 1\<close> (the memory of the host
  is not modelled).
\<close>

definition new_Float32Array :: "jsnum \<Rightarrow> heap \<Rightarrow> error + (ref \<times> heap)" where
  "new_Float32Array len h =
     (case ToIndex len of
        Inl e \<Rightarrow> Inl e
      | Inr n \<Rightarrow>
          if 2 ^ 53 - 1 < 4 * int n then Inl RangeError
          else Inr (next_ref h,
                    h\<lparr>arrays := (arrays h)(next_ref h := replicate n (Fin 0)),
                      next_ref := Suc (next_ref h)\<rparr>))"

section \<open>The estimator\<close>

text \<open>
  The object the constructor builds and freezes: three configuration fields and the
  reference of the scratch array. A frozen object is an immutable value; the scratch
  array it refers to stays writable, in the heap.
\<close>

record yin =
  bufferLength :: jsnum
  sampleRate :: jsnum
  threshold :: jsnum
  yinBuffer :: ref

text \<open>
  A value passed for the optional \<open>threshold\<close> parameter: nothing, a number, or a value
  of another type.
\<close>

datatype jsval = Undefined | Number jsnum | NotNumber

definition DEFAULT_THRESHOLD :: jsnum where
  "DEFAULT_THRESHOLD = round64 (1 / 5)"

text \<open>
  \<open>constructor(bufferLength, sampleRate, threshold = DEFAULT_THRESHOLD)\<close>, with
  \<open>bufferLength\<close> and \<open>sampleRate\<close> numbers, as documented.
\<close>

definition constructor :: "jsnum \<Rightarrow> jsnum \<Rightarrow> jsval \<Rightarrow> heap \<Rightarrow> error + (yin \<times> heap)" where
  "constructor bufferLength' sampleRate' threshold_arg h =
     (let threshold' = (case threshold_arg of Undefined \<Rightarrow> Number DEFAULT_THRESHOLD | v \<Rightarrow> v)
      in if and (ToInt32 bufferLength') 1 \<noteq> 0
         then Inl (TypeError ''The buffer length must be a multiple of two'')
         else if jle sampleRate' (Fin 0) \<or> \<not> isSafeInteger sampleRate'
         then Inl (TypeError ''The sample rate must be a positive integer'')
         else
           (case threshold' of
              Number t \<Rightarrow>
                if jle t (Fin 0) \<or> jge t (Fin 1)
                then Inl (TypeError ''The threshold must be a positive number between 0 and 1'')
                else
                  (case new_Float32Array (jdiv bufferLength' (Fin 2)) h of
                     Inl e \<Rightarrow> Inl e
                   | Inr (r, h') \<Rightarrow>
                       Inr (\<lparr>bufferLength = bufferLength', sampleRate = sampleRate',
                             threshold = t, yinBuffer = r\<rparr>, h'))
            | _ \<Rightarrow> Inl (TypeError ''The threshold must be a positive number between 0 and 1'')))"

subsection \<open>Steps 1 to 3: the difference function\<close>

text \<open>The inner loop of \<open>_asf\<close>, over \<open>index\<close>, accumulating \<open>sum\<close>.\<close>

function asf_inner :: "yin \<Rightarrow> ref \<Rightarrow> heap \<Rightarrow> nat \<Rightarrow> nat \<Rightarrow> jsnum \<Rightarrow> jsnum" where
  "asf_inner y data h tau index sum_acc =
     (if index < length (arrays h (yinBuffer y))
      then asf_inner y data h tau (index + 1)
             (jadd sum_acc (pow2 (jsub (ToNumber (h_get h data index))
                                   (ToNumber (h_get h data (index + tau))))))
      else sum_acc)"
  by pat_completeness auto
termination
  by (relation "measure (\<lambda>(y, data, h, tau, index, sum_acc). length (arrays h (yinBuffer y)) - index)")
     auto

declare asf_inner.simps [simp del]

text \<open>The outer loop of \<open>_asf\<close>, over \<open>tau\<close>, accumulating \<open>total\<close> and writing the scratch array.\<close>

function asf_outer :: "yin \<Rightarrow> ref \<Rightarrow> heap \<Rightarrow> nat \<Rightarrow> jsnum \<Rightarrow> heap" where
  "asf_outer y data h tau total_acc =
     (if tau < length (arrays h (yinBuffer y))
      then
        (let sum_acc = asf_inner y data h tau 0 (Fin 0);
             total_acc' = jadd total_acc sum_acc;
             h' = h_set h (yinBuffer y) tau (jmul sum_acc (jdiv (num tau) total_acc'))
         in asf_outer y data h' (tau + 1) total_acc')
      else h)"
  by pat_completeness auto
termination
  by (relation "measure (\<lambda>(y, data, h, tau, total_acc). length (arrays h (yinBuffer y)) - tau)")
     (auto simp: h_set_def typed_set_def)

declare asf_outer.simps [simp del]

definition asf :: "yin \<Rightarrow> ref \<Rightarrow> heap \<Rightarrow> heap" where
  "asf y data h = asf_outer y data (h_set h (yinBuffer y) 0 (Fin 1)) 1 (Fin 0)"

subsection \<open>Steps 4 and 5: the threshold and the interpolation\<close>

text \<open>The first loop of \<open>_estimatePeriod\<close>: until the error rate is below the threshold.\<close>

function threshold_loop :: "yin \<Rightarrow> heap \<Rightarrow> int \<Rightarrow> nat \<Rightarrow> nat" where
  "threshold_loop y h maxLag tau =
     (if int tau < maxLag \<and> jge (ToNumber (h_get h (yinBuffer y) tau)) (threshold y)
      then threshold_loop y h maxLag (tau + 1)
      else tau)"
  by pat_completeness auto
termination
  by (relation "measure (\<lambda>(y, h, maxLag, tau). nat (maxLag - int tau))") auto

declare threshold_loop.simps [simp del]

text \<open>The second loop: down to the local minimum.\<close>

function descend_loop :: "yin \<Rightarrow> heap \<Rightarrow> int \<Rightarrow> nat \<Rightarrow> nat" where
  "descend_loop y h maxLag tau =
     (if int tau < maxLag \<and>
         jlt (ToNumber (h_get h (yinBuffer y) (tau + 1))) (ToNumber (h_get h (yinBuffer y) tau))
      then descend_loop y h maxLag (tau + 1)
      else tau)"
  by pat_completeness auto
termination
  by (relation "measure (\<lambda>(y, h, maxLag, tau). nat (maxLag - int tau))") auto

declare descend_loop.simps [simp del]

text \<open>The lag the two loops of \<open>_estimatePeriod\<close> stop at.\<close>

definition chosen_tau :: "yin \<Rightarrow> heap \<Rightarrow> nat" where
  "chosen_tau y h =
     (let maxLag = int (length (arrays h (yinBuffer y))) - 1
      in descend_loop y h maxLag (threshold_loop y h maxLag 2))"

text \<open>
  \<open>_estimatePeriod\<close>. The caller tests the result against \<open>null\<close>, so the result is an
  option, \<open>None\<close> for \<open>null\<close>; every path of the function returns a number.
\<close>

definition estimatePeriod :: "yin \<Rightarrow> heap \<Rightarrow> jsnum option" where
  "estimatePeriod y h =
     (let tau = chosen_tau y h;
          delta = jsub (ToNumber (h_get h (yinBuffer y) (tau - 1)))
                       (ToNumber (h_get h (yinBuffer y) (tau + 1)));
          den = jadd (jsub (ToNumber (h_get h (yinBuffer y) (tau + 1)))
                           (jmul (Fin 2) (ToNumber (h_get h (yinBuffer y) tau))))
                     (ToNumber (h_get h (yinBuffer y) (tau - 1)))
      in Some (if jeq den (Fin 0) then num tau
               else jadd (num tau) (jdiv delta (jmul (Fin 2) den))))"

text \<open>\<open>getPitch(data)\<close>, with \<open>data\<close> a \<open>Float32Array\<close>, as documented.\<close>

definition getPitch :: "yin \<Rightarrow> ref \<Rightarrow> heap \<Rightarrow> (error + jsnum) \<times> heap" where
  "getPitch y data h =
     (if \<not> jeq (num (length (arrays h data))) (bufferLength y)
      then (Inl (TypeError ''Incorrect buffer size''), h)
      else
        (let h' = asf y data h
         in case estimatePeriod y h' of
              Some period \<Rightarrow> (Inr (jdiv (sampleRate y) period), h')
            | None \<Rightarrow> (Inr (Fin (- 1)), h')))"

section \<open>The specification's quantities\<close>

text \<open>
  The quantities the specification names, written from its words with the same
  arithmetic, to be compared with what the loops compute. \<open>sample xs i\<close> is the
  number the expression \<open>xs[i]\<close> contributes to an arithmetic expression.
\<close>

definition sample :: "jsnum list \<Rightarrow> nat \<Rightarrow> jsnum" where
  "sample xs i = ToNumber (typed_get xs i)"

text \<open>\<open>sum\<close> for the lag \<open>tau\<close>: the squared differences for \<open>i\<close> from 0 to \<open>L - 1\<close>, added up in this order.\<close>

definition diff_sum :: "jsnum list \<Rightarrow> nat \<Rightarrow> nat \<Rightarrow> jsnum" where
  "diff_sum xs L tau =
     foldl (\<lambda>s i. jadd s (pow2 (jsub (sample xs i) (sample xs (i + tau))))) (Fin 0) [0..<L]"

text \<open>\<open>total\<close> for the lag \<open>tau\<close>: the sums of the lags 1 to \<open>tau\<close>, added up in this order.\<close>

definition running_total :: "jsnum list \<Rightarrow> nat \<Rightarrow> nat \<Rightarrow> jsnum" where
  "running_total xs L tau = foldl (\<lambda>t k. jadd t (diff_sum xs L k)) (Fin 0) [1..<Suc tau]"

text \<open>\<open>sum * (tau / total)\<close>\<close>

definition cmndf :: "jsnum list \<Rightarrow> nat \<Rightarrow> nat \<Rightarrow> jsnum" where
  "cmndf xs L tau = jmul (diff_sum xs L tau) (jdiv (num tau) (running_total xs L tau))"

text \<open>The scratch array the specification describes, as stored: 1, then the rounded values.\<close>

definition cmndf_buffer :: "jsnum list \<Rightarrow> nat \<Rightarrow> jsnum list" where
  "cmndf_buffer xs L = map (\<lambda>k. if k = 0 then Fin 1 else fround (cmndf xs L k)) [0..<L]"

text \<open>The refined period of the specification for a scratch array \<open>b\<close> and a lag \<open>tau\<close>.\<close>

definition refined_period :: "jsnum list \<Rightarrow> nat \<Rightarrow> jsnum" where
  "refined_period b tau =
     (let delta = jsub (sample b (tau - 1)) (sample b (tau + 1));
          den = jadd (jsub (sample b (tau + 1)) (jmul (Fin 2) (sample b tau))) (sample b (tau - 1))
      in if jeq den (Fin 0) then num tau
         else jadd (num tau) (jdiv delta (jmul (Fin 2) den)))"

section \<open>Example estimators\<close>

text \<open>A heap whose only array, at reference 0, is \<open>new Float32Array(xs)\<close>.\<close>

definition samples_heap :: "jsnum list \<Rightarrow> heap" where
  "samples_heap xs = \<lparr>arrays = (\<lambda>r. [])(0 := map fround xs), next_ref = 1\<rparr>"

text \<open>\<open>new Yin(0, 8000)\<close>, built next to an empty input.\<close>

definition y0 :: yin where
  "y0 = \<lparr>bufferLength = Fin 0, sampleRate = Fin 8000, threshold = DEFAULT_THRESHOLD,
          yinBuffer = 1\<rparr>"

definition h0 :: heap where
  "h0 = \<lparr>arrays = (\<lambda>r. []), next_ref = 2\<rparr>"

text \<open>\<open>new Yin(4, 8000)\<close>, built next to an input of four zeros.\<close>

definition y4 :: yin where
  "y4 = \<lparr>bufferLength = Fin 4, sampleRate = Fin 8000, threshold = DEFAULT_THRESHOLD,
          yinBuffer = 1\<rparr>"

definition h4 :: heap where
  "h4 = \<lparr>arrays = (\<lambda>r. [])(0 := [Fin 0, Fin 0, Fin 0, Fin 0], 1 := [Fin 0, Fin 0]),
          next_ref = 2\<rparr>"

text \<open>\<open>new Yin(6, 8000)\<close>, built next to the input \<open>[0, 1, 0, 0, 0, 0]\<close>.\<close>

definition y6 :: yin where
  "y6 = \<lparr>bufferLength = Fin 6, sampleRate = Fin 8000, threshold = DEFAULT_THRESHOLD,
          yinBuffer = 1\<rparr>"

definition h6 :: heap where
  "h6 = \<lparr>arrays = (\<lambda>r. [])(0 := [Fin 0, Fin 1, Fin 0, Fin 0, Fin 0, Fin 0],
                               1 := [Fin 0, Fin 0, Fin 0]),
          next_ref = 2\<rparr>"

text \<open>\<open>new Yin(8, 8000)\<close>, built next to the input \<open>[1, -1, 1, -1, 1, -1, 1, -1]\<close>.\<close>

definition y8 :: yin where
  "y8 = \<lparr>bufferLength = Fin 8, sampleRate = Fin 8000, threshold = DEFAULT_THRESHOLD,
          yinBuffer = 1\<rparr>"

definition h8 :: heap where
  "h8 = \<lparr>arrays = (\<lambda>r. [])(0 := [Fin 1, Fin (- 1), Fin 1, Fin (- 1),
                                     Fin 1, Fin (- 1), Fin 1, Fin (- 1)],
                               1 := [Fin 0, Fin 0, Fin 0, Fin 0]),
          next_ref = 2\<rparr>"

section \<open>The heap operations\<close>

lemma length_typed_set [simp]: "length (typed_set a i v) = length a"
  by (simp add: typed_set_def)

lemma arrays_h_set:
  "arrays (h_set h r i v) r' = (if r' = r then typed_set (arrays h r) i v else arrays h r')"
  by (simp add: h_set_def)

lemma next_ref_h_set [simp]: "next_ref (h_set h r i v) = next_ref h"
  by (simp add: h_set_def)

lemma asf_outer_other:
  "r \<noteq> yinBuffer y \<Longrightarrow> arrays (asf_outer y d h tau t) r = arrays h r"
proof (induction y d h tau t rule: asf_outer.induct)
  case (1 y d h tau t)
  show ?case
  proof (cases "tau < length (arrays h (yinBuffer y))")
    case True
    with 1 show ?thesis
      by (subst asf_outer.simps) (simp add: Let_def arrays_h_set)
  next
    case False
    then show ?thesis by (subst asf_outer.simps) simp
  qed
qed

lemma asf_outer_next_ref: "next_ref (asf_outer y d h tau t) = next_ref h"
proof (induction y d h tau t rule: asf_outer.induct)
  case (1 y d h tau t)
  show ?case
  proof (cases "tau < length (arrays h (yinBuffer y))")
    case True
    with 1 show ?thesis
      by (subst asf_outer.simps) (simp add: Let_def)
  next
    case False
    then show ?thesis by (subst asf_outer.simps) simp
  qed
qed

lemma asf_outer_length:
  "length (arrays (asf_outer y d h tau t) (yinBuffer y)) = length (arrays h (yinBuffer y))"
proof (induction y d h tau t rule: asf_outer.induct)
  case (1 y d h tau t)
  show ?case
  proof (cases "tau < length (arrays h (yinBuffer y))")
    case True
    with 1 show ?thesis
      by (subst asf_outer.simps) (simp add: Let_def arrays_h_set)
  next
    case False
    then show ?thesis by (subst asf_outer.simps) simp
  qed
qed

lemma asf_outer_below:
  "k < tau \<Longrightarrow> arrays (asf_outer y d h tau t) (yinBuffer y) ! k = arrays h (yinBuffer y) ! k"
proof (induction y d h tau t rule: asf_outer.induct)
  case (1 y d h tau t)
  show ?case
  proof (cases "tau < length (arrays h (yinBuffer y))")
    case True
    with 1 show ?thesis
      by (subst asf_outer.simps) (simp add: Let_def arrays_h_set typed_set_def)
  next
    case False
    then show ?thesis by (subst asf_outer.simps) simp
  qed
qed

lemma asf_inner_foldl:
  "asf_inner y d h tau i s =
     foldl (\<lambda>s i. jadd s (pow2 (jsub (sample (arrays h d) i) (sample (arrays h d) (i + tau)))))
       s [i..<length (arrays h (yinBuffer y))]"
proof (induction y d h tau i s rule: asf_inner.induct)
  case (1 y d h tau i s)
  show ?case
  proof (cases "i < length (arrays h (yinBuffer y))")
    case True
    with 1 show ?thesis
      by (subst asf_inner.simps) (simp add: upt_conv_Cons sample_def h_get_def)
  next
    case False
    then show ?thesis by (subst asf_inner.simps) simp
  qed
qed

lemma asf_inner_diff_sum:
  "asf_inner y d h tau 0 (Fin 0) = diff_sum (arrays h d) (length (arrays h (yinBuffer y))) tau"
  by (simp add: asf_inner_foldl diff_sum_def)

lemma asf_outer_value:
  "d \<noteq> yinBuffer y \<Longrightarrow> tau \<le> k \<Longrightarrow> k < length (arrays h (yinBuffer y)) \<Longrightarrow>
   arrays (asf_outer y d h tau t) (yinBuffer y) ! k =
     fround (jmul (diff_sum (arrays h d) (length (arrays h (yinBuffer y))) k)
       (jdiv (num k)
          (foldl (\<lambda>t j. jadd t (diff_sum (arrays h d) (length (arrays h (yinBuffer y))) j))
             t [tau..<Suc k])))"
proof (induction y d h tau t arbitrary: k rule: asf_outer.induct)
  case (1 y d h tau t)
  let ?b = "yinBuffer y"
  let ?L = "length (arrays h ?b)"
  let ?s = "diff_sum (arrays h d) ?L tau"
  let ?t' = "jadd t ?s"
  let ?h' = "h_set h ?b tau (jmul ?s (jdiv (num tau) ?t'))"
  from 1(3,4) have lt: "tau < ?L" by simp
  have unfold: "asf_outer y d h tau t = asf_outer y d ?h' (tau + 1) ?t'"
    using lt by (subst asf_outer.simps) (simp add: Let_def asf_inner_diff_sum)
  have data': "arrays ?h' d = arrays h d"
    using 1(2) by (simp add: arrays_h_set)
  have len': "length (arrays ?h' ?b) = ?L"
    by (simp add: arrays_h_set)
  show ?case
  proof (cases "k = tau")
    case True
    have "arrays (asf_outer y d h tau t) ?b ! k = arrays ?h' ?b ! tau"
      unfolding unfold using True by (simp add: asf_outer_below)
    also have "\<dots> = fround (jmul ?s (jdiv (num tau) ?t'))"
      using lt by (simp add: arrays_h_set typed_set_def)
    finally show ?thesis using True by simp
  next
    case False
    with 1(3) have le: "tau + 1 \<le> k" by simp
    have k': "k < length (arrays ?h' ?b)" using 1(4) len' by simp
    have "arrays (asf_outer y d ?h' (tau + 1) ?t') ?b ! k =
        fround (jmul (diff_sum (arrays ?h' d) (length (arrays ?h' ?b)) k)
          (jdiv (num k)
            (foldl (\<lambda>t j. jadd t (diff_sum (arrays ?h' d) (length (arrays ?h' ?b)) j))
               ?t' [tau + 1..<Suc k])))"
      using lt 1(2) le k'
      by (intro "1.IH"[where k = k]) (simp_all add: asf_inner_diff_sum)
    moreover have "[tau..<Suc k] = tau # [tau + 1..<Suc k]"
      using 1(3) by (simp add: upt_conv_Cons)
    ultimately show ?thesis
      unfolding unfold by (simp add: data' len')
  qed
qed

section \<open>What \<open>_asf\<close> leaves in the heap\<close>

lemma log2n_1 [simp]: "log2n 1 = 0"
  by (subst log2n.simps) simp

lemma round32_one: "round32 1 = Fin 1"
  by (simp add: round32_def round_to_def ilog2_def log2n_1 pow2i_def round_even_def)

lemma length_cmndf_buffer [simp]: "length (cmndf_buffer xs L) = L"
  by (simp add: cmndf_buffer_def)

lemma asf_length:
  "length (arrays (asf y d h) (yinBuffer y)) = length (arrays h (yinBuffer y))"
  by (simp add: asf_def asf_outer_length arrays_h_set)

lemma asf_other: "r \<noteq> yinBuffer y \<Longrightarrow> arrays (asf y d h) r = arrays h r"
  by (simp add: asf_def asf_outer_other arrays_h_set)

lemma asf_next_ref: "next_ref (asf y d h) = next_ref h"
  by (simp add: asf_def asf_outer_next_ref)

lemma asf_zero:
  "0 < length (arrays h (yinBuffer y)) \<Longrightarrow> arrays (asf y d h) (yinBuffer y) ! 0 = Fin 1"
  by (simp add: asf_def asf_outer_below arrays_h_set typed_set_def round32_one)

lemma asf_value:
  assumes "d \<noteq> yinBuffer y" "1 \<le> tau" "tau < length (arrays h (yinBuffer y))"
  shows "arrays (asf y d h) (yinBuffer y) ! tau =
           fround (cmndf (arrays h d) (length (arrays h (yinBuffer y))) tau)"
proof -
  let ?h0 = "h_set h (yinBuffer y) 0 (Fin 1)"
  have "arrays (asf_outer y d ?h0 1 (Fin 0)) (yinBuffer y) ! tau =
     fround (jmul (diff_sum (arrays ?h0 d) (length (arrays ?h0 (yinBuffer y))) tau)
       (jdiv (num tau)
          (foldl (\<lambda>t j. jadd t (diff_sum (arrays ?h0 d) (length (arrays ?h0 (yinBuffer y))) j))
             (Fin 0) [1..<Suc tau])))"
    using assms by (intro asf_outer_value) (simp_all add: arrays_h_set)
  then show ?thesis
    using assms(1) by (simp add: asf_def cmndf_def running_total_def arrays_h_set)
qed

text \<open>
  The reads of the samples: with \<open>index\<close> and \<open>tau\<close> below \<open>L\<close> and an input of \<open>2 * L\<close>
  samples, \<open>_asf\<close> reads inside the input.
\<close>

lemma asf_sample_reads_in_range:
  assumes "index < L" "tau < L" "length xs = 2 * L"
  shows "typed_get xs index = Some (xs ! index)"
    and "typed_get xs (index + tau) = Some (xs ! (index + tau))"
  using assms by (simp_all add: typed_get_def)

text \<open>With an empty scratch array, \<open>_asf\<close> writes nothing.\<close>

lemma asf_empty:
  assumes "arrays h (yinBuffer y) = []"
  shows "arrays (asf y d h) = arrays h"
proof
  fix r
  show "arrays (asf y d h) r = arrays h r"
  proof (cases "r = yinBuffer y")
    case True
    have "length (arrays (asf y d h) (yinBuffer y)) = 0"
      using assms by (simp add: asf_length)
    then show ?thesis using True assms by simp
  next
    case False
    then show ?thesis by (simp add: asf_other)
  qed
qed

text \<open>
  Every cell of the scratch array is overwritten: what \<open>_asf\<close> leaves there is a
  function of the samples and of the length of the array, not of its old contents.
\<close>

lemma asf_buffer:
  assumes "d \<noteq> yinBuffer y"
  shows "arrays (asf y d h) (yinBuffer y) =
           cmndf_buffer (arrays h d) (length (arrays h (yinBuffer y)))"
proof (rule nth_equalityI)
  show "length (arrays (asf y d h) (yinBuffer y)) =
        length (cmndf_buffer (arrays h d) (length (arrays h (yinBuffer y))))"
    by (simp add: asf_length)
next
  fix k assume "k < length (arrays (asf y d h) (yinBuffer y))"
  then have k: "k < length (arrays h (yinBuffer y))" by (simp add: asf_length)
  show "arrays (asf y d h) (yinBuffer y) ! k =
        cmndf_buffer (arrays h d) (length (arrays h (yinBuffer y))) ! k"
  proof (cases "k = 0")
    case True
    with k show ?thesis by (simp add: asf_zero cmndf_buffer_def)
  next
    case False
    with k assms show ?thesis by (simp add: asf_value cmndf_buffer_def)
  qed
qed

text \<open>A second run on the same samples leaves the scratch array as the first run left it.\<close>

lemma asf_again:
  assumes "data \<noteq> yinBuffer y \<or> arrays h (yinBuffer y) = []"
    and "data' \<noteq> yinBuffer y \<or> arrays h (yinBuffer y) = []"
    and "arrays h data' = arrays h data"
  shows "arrays (asf y data' (asf y data h)) (yinBuffer y) = arrays (asf y data h) (yinBuffer y)"
proof (cases "arrays h (yinBuffer y) = []")
  case True
  then have "arrays (asf y data h) (yinBuffer y) = []" by (simp add: asf_empty)
  then show ?thesis by (simp add: asf_empty)
next
  case False
  with assms have "data \<noteq> yinBuffer y" "data' \<noteq> yinBuffer y" by simp_all
  with assms(3) show ?thesis by (simp add: asf_buffer asf_other asf_length)
qed

section \<open>The two loops of \<open>_estimatePeriod\<close>\<close>

text \<open>The loops read the scratch array only.\<close>

lemma threshold_loop_cong:
  "arrays h (yinBuffer y) = arrays h' (yinBuffer y) \<Longrightarrow>
   threshold_loop y h m tau = threshold_loop y h' m tau"
proof (induction y h m tau rule: threshold_loop.induct)
  case (1 y h m tau)
  then show ?case
    by (subst threshold_loop.simps, subst (2) threshold_loop.simps) (simp add: h_get_def)
qed

lemma descend_loop_cong:
  "arrays h (yinBuffer y) = arrays h' (yinBuffer y) \<Longrightarrow>
   descend_loop y h m tau = descend_loop y h' m tau"
proof (induction y h m tau rule: descend_loop.induct)
  case (1 y h m tau)
  then show ?case
    by (subst descend_loop.simps, subst (2) descend_loop.simps) (simp add: h_get_def)
qed

lemma chosen_tau_cong:
  "arrays h (yinBuffer y) = arrays h' (yinBuffer y) \<Longrightarrow> chosen_tau y h = chosen_tau y h'"
  using threshold_loop_cong [of h y h'] descend_loop_cong [of h y h']
  by (simp add: chosen_tau_def)

text \<open>A loop never lowers the lag, and never passes \<open>maxLag\<close> from below.\<close>

lemma threshold_loop_ge: "tau \<le> threshold_loop y h m tau"
proof (induction y h m tau rule: threshold_loop.induct)
  case (1 y h m tau)
  then show ?case by (subst threshold_loop.simps) (auto simp: Suc_leD)
qed

lemma threshold_loop_le: "int tau \<le> m \<Longrightarrow> int (threshold_loop y h m tau) \<le> m"
proof (induction y h m tau rule: threshold_loop.induct)
  case (1 y h m tau)
  then show ?case by (subst threshold_loop.simps) auto
qed

lemma threshold_loop_stop: "m \<le> int tau \<Longrightarrow> threshold_loop y h m tau = tau"
  by (subst threshold_loop.simps) simp

lemma descend_loop_ge: "tau \<le> descend_loop y h m tau"
proof (induction y h m tau rule: descend_loop.induct)
  case (1 y h m tau)
  then show ?case by (subst descend_loop.simps) (auto simp: Suc_leD)
qed

lemma descend_loop_le: "int tau \<le> m \<Longrightarrow> int (descend_loop y h m tau) \<le> m"
proof (induction y h m tau rule: descend_loop.induct)
  case (1 y h m tau)
  then show ?case by (subst descend_loop.simps) auto
qed

lemma descend_loop_stop: "m \<le> int tau \<Longrightarrow> descend_loop y h m tau = tau"
  by (subst descend_loop.simps) simp

lemma chosen_tau_ge: "2 \<le> chosen_tau y h"
  unfolding chosen_tau_def Let_def
  using threshold_loop_ge [of 2 y h] descend_loop_ge order_trans by blast

lemma chosen_tau_le:
  assumes "3 \<le> length (arrays h (yinBuffer y))"
  shows "int (chosen_tau y h) \<le> int (length (arrays h (yinBuffer y))) - 1"
proof -
  from assms have "int 2 \<le> int (length (arrays h (yinBuffer y))) - 1" by simp
  then show ?thesis
    unfolding chosen_tau_def Let_def
    by (intro descend_loop_le threshold_loop_le)
qed

text \<open>With at most three cells, \<open>maxLag\<close> is at most 2 and neither loop is entered.\<close>

lemma chosen_tau_immediate:
  assumes "length (arrays h (yinBuffer y)) \<le> 3"
  shows "chosen_tau y h = 2"
proof -
  from assms have "int (length (arrays h (yinBuffer y))) - 1 \<le> int 2" by simp
  then show ?thesis
    unfolding chosen_tau_def Let_def
    by (simp add: threshold_loop_stop descend_loop_stop)
qed

section \<open>\<open>getPitch\<close>\<close>

text \<open>\<open>_estimatePeriod\<close> returns a number on every path: the caller's \<open>null\<close> branch is dead.\<close>

lemma estimatePeriod_not_null: "estimatePeriod y h \<noteq> None"
  by (simp add: estimatePeriod_def Let_def)

lemma getPitch_rejected:
  "\<not> jeq (num (length (arrays h data))) (bufferLength y) \<Longrightarrow>
   getPitch y data h = (Inl (TypeError ''Incorrect buffer size''), h)"
  by (simp add: getPitch_def)

lemma getPitch_accepted:
  assumes "jeq (num (length (arrays h data))) (bufferLength y)"
  shows "getPitch y data h =
           (Inr (jdiv (sampleRate y)
                   (refined_period (arrays (asf y data h) (yinBuffer y))
                      (chosen_tau y (asf y data h)))),
            asf y data h)"
  using assms
  by (simp add: getPitch_def estimatePeriod_def refined_period_def sample_def h_get_def Let_def)

lemma getPitch_arrays:
  assumes "data \<noteq> yinBuffer y \<or> arrays h (yinBuffer y) = []"
  shows "arrays (snd (getPitch y data h)) data = arrays h data"
    and "r \<noteq> yinBuffer y \<Longrightarrow> arrays (snd (getPitch y data h)) r = arrays h r"
    and "next_ref (snd (getPitch y data h)) = next_ref h"
    and "length (arrays (snd (getPitch y data h)) (yinBuffer y)) = length (arrays h (yinBuffer y))"
proof -
  have snd_eq: "snd (getPitch y data h) = h \<or> snd (getPitch y data h) = asf y data h"
    by (cases "jeq (num (length (arrays h data))) (bufferLength y)")
       (simp_all add: getPitch_accepted getPitch_rejected)
  show "arrays (snd (getPitch y data h)) data = arrays h data"
    using snd_eq assms by (auto simp: asf_other asf_empty)
  show "r \<noteq> yinBuffer y \<Longrightarrow> arrays (snd (getPitch y data h)) r = arrays h r"
    using snd_eq by (auto simp: asf_other)
  show "next_ref (snd (getPitch y data h)) = next_ref h"
    using snd_eq by (auto simp: asf_next_ref)
  show "length (arrays (snd (getPitch y data h)) (yinBuffer y)) = length (arrays h (yinBuffer y))"
    using snd_eq by (auto simp: asf_length)
qed

section \<open>The constructor\<close>

lemma trunc_of_int: "trunc (of_int n) = n"
  by (simp add: trunc_def)

lemma even_ToInt32: "even (ToInt32 (Fin (of_int n))) \<longleftrightarrow> even n"
proof -
  have e32: "(2::int) dvd 2 ^ 32" and e31: "even ((2::int) ^ 31)" by simp_all
  have "even ((n + 2 ^ 31) mod 2 ^ 32 - 2 ^ 31) \<longleftrightarrow> even ((n + 2 ^ 31) mod 2 ^ 32)"
    using e31 by (simp only: even_diff_iff) simp
  also have "\<dots> \<longleftrightarrow> even (n + 2 ^ 31)"
    using e32 by (rule dvd_mod_iff)
  also have "\<dots> \<longleftrightarrow> even n"
    using e31 by simp
  finally show ?thesis
    by (simp add: ToInt32_def trunc_of_int)
qed

lemma and_ToInt32: "and (ToInt32 (Fin (of_int n))) 1 \<noteq> 0 \<longleftrightarrow> odd n"
  by (simp add: and_one_eq even_ToInt32 odd_iff_mod_2_eq_one [symmetric] del: of_int_of_nat_eq)

lemma new_Float32Array_error: "new_Float32Array len h = Inl e \<Longrightarrow> e = RangeError"
  by (auto simp: new_Float32Array_def ToIndex_def split: sum.splits jsnum.splits if_splits)

section \<open>An accepted input is not the scratch array\<close>

text \<open>
  The scratch array has \<open>bufferLength / 2\<close> cells and an accepted input \<open>bufferLength\<close>:
  the two can be the same array only when it is empty. The rounded half of a length
  from 2 on is below that length.
\<close>

lemma log2n_nonneg: "0 \<le> log2n k"
proof (induction k rule: log2n.induct)
  case (1 n)
  then show ?case by (subst log2n.simps) simp
qed

lemma log2n_le: "1 \<le> k \<Longrightarrow> 2 ^ nat (log2n k) \<le> k"
proof (induction k rule: log2n.induct)
  case (1 n)
  show ?case
  proof (cases "n < 2")
    case True
    with 1(2) show ?thesis by (subst log2n.simps) simp
  next
    case False
    then have "1 \<le> n div 2" by simp
    with 1(1) False have ih: "2 ^ nat (log2n (n div 2)) \<le> n div 2" by simp
    have "nat (1 + log2n (n div 2)) = Suc (nat (log2n (n div 2)))"
      using log2n_nonneg [of "n div 2"] by simp
    then have "(2::int) ^ nat (1 + log2n (n div 2)) = 2 * 2 ^ nat (log2n (n div 2))"
      by simp
    also have "\<dots> \<le> 2 * (n div 2)" using ih by simp
    also have "\<dots> \<le> n" by simp
    finally show ?thesis using False by (subst log2n.simps) simp
  qed
qed

lemma pow2i_pos: "0 < pow2i e"
  by (simp add: pow2i_def)

lemma pow2i_shift_le:
  assumes "0 \<le> e" "0 \<le> d"
  shows "pow2i (e - d) \<le> 2 ^ nat e"
proof (cases "0 \<le> e - d")
  case True
  then have "nat (e - d) \<le> nat e" using assms by simp
  then have "(2::rat) ^ nat (e - d) \<le> 2 ^ nat e"
    by (intro power_increasing) simp_all
  with True show ?thesis by (simp add: pow2i_def)
next
  case False
  have "1 / (2::rat) ^ nat (- (e - d)) \<le> 1" by simp
  also have "\<dots> \<le> 2 ^ nat e" by simp
  finally show ?thesis using False by (simp add: pow2i_def)
qed

lemma round_even_le: "of_int (round_even z) \<le> z + 1 / 2"
proof -
  have lo: "of_int \<lfloor>z\<rfloor> \<le> z" by simp
  have hi: "z < of_int \<lfloor>z\<rfloor> + 1" by linarith
  show ?thesis
    unfolding round_even_def Let_def
    using lo hi by (simp split: if_splits) linarith
qed

lemma round_to_less_double:
  assumes "1 \<le> x" "1 \<le> p" "emin \<le> 0" "round_to p emin emax x = Fin r"
  shows "r < 2 * x"
proof -
  let ?e = "max (ilog2 \<bar>x\<bar>) emin"
  let ?q = "pow2i (?e - int p + 1)"
  let ?m = "round_even (\<bar>x\<bar> / ?q)"
  have x: "\<bar>x\<bar> = x" "x \<noteq> 0" "\<not> x < 0" "0 < x" using assms(1) by simp_all
  have fl: "1 \<le> \<lfloor>x\<rfloor>" using assms(1) by simp
  have il: "ilog2 x = log2n \<lfloor>x\<rfloor>" using assms(1) by (simp add: ilog2_def)
  have r: "r = of_int ?m * ?q"
    using assms(4) x by (simp add: round_to_def Let_def split: if_splits)
  have e: "?e = log2n \<lfloor>x\<rfloor>"
    using log2n_nonneg [of "\<lfloor>x\<rfloor>"] assms(3) by (simp add: x il)
  have q0: "0 < ?q" by (rule pow2i_pos)
  have "?q = pow2i (?e - (int p - 1))" by (simp add: algebra_simps)
  also have "\<dots> \<le> 2 ^ nat ?e"
    using log2n_nonneg [of "\<lfloor>x\<rfloor>"] assms(2) unfolding e by (intro pow2i_shift_le) simp_all
  also have "\<dots> = of_int (2 ^ nat (log2n \<lfloor>x\<rfloor>))" by (simp add: e)
  also have "\<dots> \<le> of_int \<lfloor>x\<rfloor>"
    using log2n_le [OF fl] by (simp only: of_int_le_iff)
  also have "\<dots> \<le> x" by simp
  finally have q_le: "?q \<le> x" .
  have "of_int ?m \<le> \<bar>x\<bar> / ?q + 1 / 2" by (rule round_even_le)
  then have "of_int ?m * ?q \<le> (x / ?q + 1 / 2) * ?q"
    using q0 by (simp only: x mult_le_cancel_right_pos)
  also have "\<dots> = x + ?q / 2" using q0 by (simp add: field_simps)
  also have "\<dots> < 2 * x" using q_le x(4) by simp
  finally show ?thesis by (simp only: r)
qed

lemma round64_half: "round64 (1 / 2) = Fin (1 / 2)"
  by (simp add: round64_def round_to_def ilog2_def pow2i_def round_even_def Let_def log2n_1)

text \<open>No length is the integer part of its own half, but 0.\<close>

lemma half_length_less:
  assumes "ToIndex (jdiv (Fin (of_nat n)) (Fin 2)) = Inr n"
  shows "n = 0"
proof (rule ccontr)
  assume n: "n \<noteq> 0"
  then have div: "jdiv (Fin (of_nat n)) (Fin 2) = round64 (of_nat n / 2)"
    by (simp add: jdiv_def)
  show False
  proof (cases "n = 1")
    case True
    with assms div show False
      by (simp add: round64_half ToIndex_def trunc_def)
  next
    case False
    with n have x: "(1::rat) \<le> of_nat n / 2" by simp
    show False
    proof (cases "round64 (of_nat n / 2)")
      case (Fin r)
      then have "r < 2 * (of_nat n / 2)"
        unfolding round64_def by (intro round_to_less_double [OF x]) simp_all
      then have r: "r < of_nat n" by simp
      have "trunc r < int n"
      proof (cases "0 \<le> r")
        case True
        then show ?thesis using r by (simp add: trunc_def floor_less_iff)
      next
        case False
        then have "\<lceil>r\<rceil> \<le> 0" by (simp add: ceiling_le_zero)
        moreover have "0 < int n" using n by simp
        ultimately have "\<lceil>r\<rceil> < int n" by linarith
        with False show ?thesis by (simp add: trunc_def)
      qed
      moreover have "nat (trunc r) = n"
        using assms div Fin by (simp add: ToIndex_def split: if_splits)
      ultimately show False using n by arith
    qed (use assms div n in \<open>simp_all add: ToIndex_def\<close>)
  qed
qed

text \<open>
  For an estimator the constructor built, in any later heap (the length of a typed array
  never changes), an input that \<open>getPitch\<close> accepts satisfies the hypothesis of the
  theorems on \<open>getPitch\<close> below.
\<close>

lemma accepted_input_not_scratch:
  assumes "constructor bl sr th h0 = Inr (y, h1)"
    and "length (arrays h (yinBuffer y)) = length (arrays h1 (yinBuffer y))"
    and "jeq (num (length (arrays h data))) (bufferLength y)"
  shows "data \<noteq> yinBuffer y \<or> arrays h (yinBuffer y) = []"
proof (cases "data = yinBuffer y")
  case False
  then show ?thesis by simp
next
  case True
  let ?n = "length (arrays h (yinBuffer y))"
  from assms(1) obtain n where idx: "ToIndex (jdiv bl (Fin 2)) = Inr n"
    and len1: "length (arrays h1 (yinBuffer y)) = n" and bl: "bufferLength y = bl"
    by (auto simp: constructor_def new_Float32Array_def Let_def
        split: if_splits jsval.splits sum.splits)
  have eq: "jeq (num ?n) bl" using assms(3) True bl by simp
  have n: "?n = n" using assms(2) len1 by simp
  show ?thesis
  proof (cases "n = 0")
    case True
    with n show ?thesis by simp
  next
    case False
    with eq n have "bl = Fin (of_nat n)"
      by (cases bl) (simp_all add: jeq_def num_def)
    with idx have "n = 0" by (intro half_length_less) simp
    with False show ?thesis by simp
  qed
qed

section \<open>Evaluation on concrete numbers\<close>

text \<open>
  Rules that let the simplifier compute the rounding and the arithmetic on numerals.
\<close>

lemma log2n_numeral [simp]:
  "log2n (numeral n) = (if numeral n < (2::int) then 0 else 1 + log2n (numeral n div 2))"
  by (subst log2n.simps) simp

lemma log2n_0 [simp]: "log2n 0 = 0"
  by (subst log2n.simps) simp

lemma floor_rat_numeral [simp]:
  "\<lfloor>(numeral a :: rat) / numeral b\<rfloor> = numeral a div numeral b"
  by (metis floor_divide_of_int_eq of_int_numeral)

lemma ceiling_rat_numeral [simp]:
  "\<lceil>(numeral a :: rat) / numeral b\<rceil> = - (- numeral a div numeral b)"
  unfolding ceiling_def
  by (metis floor_divide_of_int_eq of_int_numeral of_int_minus minus_divide_left)

lemmas eval_round = round64_def round32_def round_to_def ilog2_def pow2i_def round_even_def Let_def

lemmas eval_arith = jadd_def jsub_def jmul_def jdiv_def pow2_def signed_zero_def signed_inf_def
  jlt_def jle_def jge_def jeq_def num_def

lemma DEFAULT_THRESHOLD_value:
  "DEFAULT_THRESHOLD = Fin (3602879701896397 / 18014398509481984)"
  by (simp add: DEFAULT_THRESHOLD_def eval_round)

lemma default_threshold_checks:
  "\<not> jle DEFAULT_THRESHOLD (Fin 0)" "\<not> jge DEFAULT_THRESHOLD (Fin 1)"
  by (simp_all add: DEFAULT_THRESHOLD_value eval_arith)

lemma sampleRate_8000_checks: "\<not> jle (Fin 8000) (Fin 0)" "isSafeInteger (Fin 8000)"
  by (simp_all add: eval_arith isSafeInteger_def)

lemma ToInt32_small: "ToInt32 (Fin 0) = 0" "ToInt32 (Fin 4) = 4" "ToInt32 (Fin 6) = 6"
  by (simp_all add: ToInt32_def trunc_def)

lemma half_lengths:
  "ToIndex (jdiv (Fin 0) (Fin 2)) = Inr 0"
  "ToIndex (jdiv (Fin 4) (Fin 2)) = Inr 2"
  "ToIndex (jdiv (Fin 6) (Fin 2)) = Inr 3"
  by (simp_all add: ToIndex_def trunc_def eval_arith eval_round)

lemma fround_small: "fround (Fin 0) = Fin 0" "fround (Fin 1) = Fin 1"
  by (simp_all add: eval_round)

lemma example6:
  "constructor (Fin 6) (Fin 8000) Undefined (samples_heap [Fin 0, Fin 1, Fin 0, Fin 0, Fin 0, Fin 0])
     = Inr (y6, h6)"
  by (simp add: constructor_def new_Float32Array_def samples_heap_def y6_def h6_def
      ToInt32_small sampleRate_8000_checks default_threshold_checks half_lengths
      fround_small numeral_3_eq_3 del: fround.simps)

lemma upt_small:
  "[0..<3] = [0, Suc 0, 2]" "[Suc 0..<3] = [Suc 0, 2]" "[0..<2] = [0, Suc 0]"
  by (simp_all add: upt_conv_Cons numeral_3_eq_3 numeral_2_eq_2)

lemma squares:
  "pow2 (jsub (Fin 0) (Fin 1)) = Fin 1"
  "pow2 (jsub (Fin 1) (Fin 0)) = Fin 1"
  "pow2 (jsub (Fin 0) (Fin 0)) = Fin 0"
  by (simp_all add: eval_arith eval_round)

lemma sums:
  "jadd (Fin 0) (Fin 0) = Fin 0"
  "jadd (Fin 0) (Fin 1) = Fin 1"
  "jadd (Fin 1) (Fin 0) = Fin 1"
  "jadd (Fin 1) (Fin 1) = Fin 2"
  "jadd (Fin 0) (Fin 2) = Fin 2"
  "jadd (Fin 2) (Fin 0) = Fin 2"
  "jadd (Fin 2) (Fin 1) = Fin 3"
  by (simp_all add: eval_arith eval_round)

lemma diff_sum6:
  "diff_sum [Fin 0, Fin 1, Fin 0, Fin 0, Fin 0, Fin 0] 3 (Suc 0) = Fin 2"
  "diff_sum [Fin 0, Fin 1, Fin 0, Fin 0, Fin 0, Fin 0] 3 2 = Fin 1"
  by (simp_all add: diff_sum_def upt_small sample_def typed_get_def squares sums)

lemma running_total6:
  "running_total [Fin 0, Fin 1, Fin 0, Fin 0, Fin 0, Fin 0] 3 2 = Fin 3"
  by (simp add: running_total_def upt_small diff_sum6 sums)

lemma cmndf6:
  "cmndf [Fin 0, Fin 1, Fin 0, Fin 0, Fin 0, Fin 0] 3 2 = Fin (6004799503160661 / 9007199254740992)"
  by (simp add: cmndf_def diff_sum6 running_total6 eval_arith eval_round)

lemma fround_two_thirds:
  "fround (Fin (6004799503160661 / 9007199254740992)) = Fin (11184811 / 16777216)"
  by (simp add: eval_round)

lemma example0:
  "constructor (Fin 0) (Fin 8000) Undefined (samples_heap []) = Inr (y0, h0)"
  by (simp add: constructor_def new_Float32Array_def samples_heap_def y0_def h0_def
      ToInt32_small sampleRate_8000_checks default_threshold_checks half_lengths fun_eq_iff)

lemma example4:
  "constructor (Fin 4) (Fin 8000) Undefined (samples_heap [Fin 0, Fin 0, Fin 0, Fin 0])
     = Inr (y4, h4)"
  by (simp add: constructor_def new_Float32Array_def samples_heap_def y4_def h4_def
      ToInt32_small sampleRate_8000_checks default_threshold_checks half_lengths
      fround_small numeral_2_eq_2 del: fround.simps)

lemma example6_fields:
  "arrays h6 0 = [Fin 0, Fin 1, Fin 0, Fin 0, Fin 0, Fin 0]"
  "length (arrays h6 0) = 6"
  "length (arrays h6 (yinBuffer y6)) = 3"
  "0 \<noteq> yinBuffer y6"
  "next_ref h6 = 2"
  "bufferLength y6 = Fin 6"
  by (simp_all add: h6_def y6_def)

lemma example4_fields:
  "length (arrays h4 0) = 4"
  "length (arrays h4 (yinBuffer y4)) = 2"
  "0 \<noteq> yinBuffer y4"
  "bufferLength y4 = Fin 4"
  by (simp_all add: h4_def y4_def)

lemma example0_fields:
  "arrays h0 r = []" "bufferLength y0 = Fin 0"
  by (simp_all add: h0_def y0_def)

lemma NaN_propagates:
  "jadd NaN x = NaN" "jadd x NaN = NaN" "jsub NaN x = NaN" "jsub x NaN = NaN"
  "jmul NaN x = NaN" "jmul x NaN = NaN" "jdiv NaN x = NaN" "jdiv x NaN = NaN"
  "jeq NaN x = False" "jeq x NaN = False"
  "jle NaN x = False" "jge NaN x = False"
  by (simp_all add: jadd_def jsub_def jmul_def jdiv_def jeq_def jle_def jge_def)

lemma example8_fields:
  "arrays h8 0 = [Fin 1, Fin (- 1), Fin 1, Fin (- 1), Fin 1, Fin (- 1), Fin 1, Fin (- 1)]"
  "length (arrays h8 0) = 8"
  "length (arrays h8 (yinBuffer y8)) = 4"
  "0 \<noteq> yinBuffer y8"
  "bufferLength y8 = Fin 8"
  "sampleRate y8 = Fin 8000"
  "threshold y8 = DEFAULT_THRESHOLD"
  by (simp_all add: h8_def y8_def)

lemma upt4: "[0..<4] = [0, Suc 0, 2, 3]" "[Suc 0..<3] = [Suc 0, 2]" "[Suc 0..<4] = [Suc 0, 2, 3]"
  by (simp_all add: upt_conv_Cons eval_nat_numeral)

lemma squares8:
  "pow2 (jsub (Fin 1) (Fin (- 1))) = Fin 4"
  "pow2 (jsub (Fin (- 1)) (Fin 1)) = Fin 4"
  "pow2 (jsub (Fin 1) (Fin 1)) = Fin 0"
  "pow2 (jsub (Fin (- 1)) (Fin (- 1))) = Fin 0"
  by (simp_all add: eval_arith eval_round)

lemma sums8:
  "jadd (Fin 0) (Fin 4) = Fin 4"
  "jadd (Fin 4) (Fin 4) = Fin 8"
  "jadd (Fin 8) (Fin 4) = Fin 12"
  "jadd (Fin 12) (Fin 4) = Fin 16"
  "jadd (Fin 0) (Fin 16) = Fin 16"
  "jadd (Fin 16) (Fin 0) = Fin 16"
  "jadd (Fin 16) (Fin 16) = Fin 32"
  by (simp_all add: eval_arith eval_round)

lemma diff_sum8:
  "diff_sum [Fin 1, Fin (- 1), Fin 1, Fin (- 1), Fin 1, Fin (- 1), Fin 1, Fin (- 1)] 4 (Suc 0) = Fin 16"
  "diff_sum [Fin 1, Fin (- 1), Fin 1, Fin (- 1), Fin 1, Fin (- 1), Fin 1, Fin (- 1)] 4 2 = Fin 0"
  "diff_sum [Fin 1, Fin (- 1), Fin 1, Fin (- 1), Fin 1, Fin (- 1), Fin 1, Fin (- 1)] 4 3 = Fin 16"
  by (simp_all add: diff_sum_def upt4 sample_def typed_get_def squares8 sums8 sums(1))

lemma running_total8:
  "running_total [Fin 1, Fin (- 1), Fin 1, Fin (- 1), Fin 1, Fin (- 1), Fin 1, Fin (- 1)] 4 (Suc 0) = Fin 16"
  "running_total [Fin 1, Fin (- 1), Fin 1, Fin (- 1), Fin 1, Fin (- 1), Fin 1, Fin (- 1)] 4 2 = Fin 16"
  "running_total [Fin 1, Fin (- 1), Fin 1, Fin (- 1), Fin 1, Fin (- 1), Fin 1, Fin (- 1)] 4 3 = Fin 32"
  by (simp_all add: running_total_def upt4 diff_sum8 sums8)

lemma cmndf8:
  "cmndf [Fin 1, Fin (- 1), Fin 1, Fin (- 1), Fin 1, Fin (- 1), Fin 1, Fin (- 1)] 4 (Suc 0) = Fin 1"
  "cmndf [Fin 1, Fin (- 1), Fin 1, Fin (- 1), Fin 1, Fin (- 1), Fin 1, Fin (- 1)] 4 2 = Fin 0"
  "cmndf [Fin 1, Fin (- 1), Fin 1, Fin (- 1), Fin 1, Fin (- 1), Fin 1, Fin (- 1)] 4 3 = Fin (3 / 2)"
  by (simp_all add: cmndf_def diff_sum8 running_total8 eval_arith eval_round)

lemma fround8: "fround (Fin (3 / 2)) = Fin (3 / 2)"
  by (simp add: eval_round)

lemma buffer8:
  "arrays (asf y8 0 h8) (yinBuffer y8) = [Fin 1, Fin 1, Fin 0, Fin (3 / 2)]"
  by (simp add: asf_buffer example8_fields cmndf_buffer_def upt4 cmndf8 fround8 fround_small
      del: fround.simps)

lemma chosen_tau8: "chosen_tau y8 (asf y8 0 h8) = 2"
proof -
  have b2: "ToNumber (h_get (asf y8 0 h8) (yinBuffer y8) 2) = Fin 0"
    and b3: "ToNumber (h_get (asf y8 0 h8) (yinBuffer y8) 3) = Fin (3 / 2)"
    by (simp_all add: h_get_def typed_get_def buffer8)
  have stay: "\<not> jge (Fin 0) (threshold y8)"
    by (simp add: example8_fields DEFAULT_THRESHOLD_value eval_arith)
  have first: "threshold_loop y8 (asf y8 0 h8) 3 2 = 2"
    by (subst threshold_loop.simps) (simp add: b2 stay)
  have rise: "\<not> jlt (Fin (3 / 2)) (Fin 0)"
    by (simp add: eval_arith)
  have second: "descend_loop y8 (asf y8 0 h8) 3 2 = 2"
    by (subst descend_loop.simps) (simp add: b2 b3 rise)
  show ?thesis
    by (simp add: chosen_tau_def buffer8 first second)
qed

lemma interpolation8:
  "jsub (Fin 1) (Fin (3 / 2)) = Fin (- (1 / 2))"
  "jmul (Fin 2) (Fin 0) = Fin 0"
  "jsub (Fin (3 / 2)) (Fin 0) = Fin (3 / 2)"
  "jadd (Fin (3 / 2)) (Fin 1) = Fin (5 / 2)"
  "jeq (Fin (5 / 2)) (Fin 0) = False"
  "jmul (Fin 2) (Fin (5 / 2)) = Fin 5"
  "jdiv (Fin (- (1 / 2))) (Fin 5) = Fin (- (3602879701896397 / 36028797018963968))"
  "jadd (Fin 2) (Fin (- (3602879701896397 / 36028797018963968)))
     = Fin (4278419646001971 / 2251799813685248)"
  "jdiv (Fin 8000) (Fin (4278419646001971 / 2251799813685248))
     = Fin (4629522643267369 / 1099511627776)"
  by (simp_all add: eval_arith eval_round)

lemma refined_period8:
  "refined_period [Fin 1, Fin 1, Fin 0, Fin (3 / 2)] 2 = Fin (4278419646001971 / 2251799813685248)"
  by (simp add: refined_period_def sample_def typed_get_def interpolation8 num_def)

text \<open>
  \<open>new Yin(8, 8000)\<close> on the alternating input \<open>[1, -1, 1, -1, 1, -1, 1, -1]\<close>: the
  scratch array becomes \<open>[1, 1, 0, 1.5]\<close>, the lag 2 is chosen, the refined period is
  1.9 and the pitch 8000 / 1.9 Hz.
\<close>

lemma example8_pitch:
  "fst (getPitch y8 0 h8) = Inr (Fin (4629522643267369 / 1099511627776))"
proof -
  have "jeq (num (length (arrays h8 0))) (bufferLength y8)"
    by (simp add: example8_fields(2,5) jeq_def num_def)
  then show ?thesis
    by (simp add: getPitch_accepted buffer8 chosen_tau8 refined_period8 example8_fields(6)
        interpolation8)
qed

lemma example8:
  "constructor (Fin 8) (Fin 8000) Undefined
     (samples_heap [Fin 1, Fin (- 1), Fin 1, Fin (- 1), Fin 1, Fin (- 1), Fin 1, Fin (- 1)])
     = Inr (y8, h8)"
proof -
  have "ToInt32 (Fin 8) = 8" by (simp add: ToInt32_def trunc_def)
  moreover have "ToIndex (jdiv (Fin 8) (Fin 2)) = Inr 4"
    by (simp add: ToIndex_def trunc_def eval_arith eval_round)
  moreover have "fround (Fin (- 1)) = Fin (- 1)" by (simp add: eval_round)
  ultimately show ?thesis
    by (simp add: constructor_def new_Float32Array_def samples_heap_def y8_def h8_def
        sampleRate_8000_checks default_threshold_checks fround_small eval_nat_numeral
        del: fround.simps)
qed

text \<open>With at most three cells the interpolation reads past the end of the scratch array.\<close>

lemma refined_period_short:
  assumes "length b \<le> 3" "2 \<le> tau"
  shows "refined_period b tau = NaN"
proof -
  have "sample b (tau + 1) = NaN"
    using assms by (simp add: sample_def typed_get_def)
  then show ?thesis
    by (simp add: refined_period_def Let_def NaN_propagates)
qed

lemma constructor_fields:
  assumes "constructor bl sr th h = Inr (y, h')"
  shows "bufferLength y = bl" and "sampleRate y = sr"
    and "Number (threshold y) = (case th of Undefined \<Rightarrow> Number DEFAULT_THRESHOLD | v \<Rightarrow> v)"
  using assms
  by (auto simp: constructor_def Let_def split: if_splits jsval.splits sum.splits)

section \<open>The claims\<close>

subsection \<open>C1: the normalized difference function\<close>

text \<open>
  C1 says that after \<open>_asf\<close> every cell \<open>tau\<close> from 1 to \<open>L - 1\<close> of the scratch array
  holds \<open>sum * (tau / total)\<close>. The scratch array is a \<open>Float32Array\<close>: the cell holds
  that number rounded to single precision. For the input \<open>[0, 1, 0, 0, 0, 0]\<close> and
  \<open>tau = 2\<close> the sum is 1, the total is 3, \<open>sum * (tau / total)\<close> is the double nearest
  to 2/3 and the cell holds the float nearest to it, which is another number.

  C1, as amended: for an input that is not the scratch array itself, after \<open>_asf\<close>
  every cell \<open>tau\<close> from 1 to \<open>L - 1\<close> holds \<open>sum * (tau / total)\<close> rounded to single
  precision, with \<open>sum\<close> and \<open>total\<close> as the specification defines them.
\<close>

theorem asf_cmndf:
  assumes "data \<noteq> yinBuffer y" "1 \<le> tau" "tau < length (arrays h (yinBuffer y))"
  shows "h_get (asf y data h) (yinBuffer y) tau =
           Some (fround (cmndf (arrays h data) (length (arrays h (yinBuffer y))) tau))"
  using assms by (simp add: h_get_def typed_get_def asf_length asf_value)

theorem asf_cmndf_witness:
  "(0::nat) \<noteq> yinBuffer y6 \<and> (1::nat) \<le> 2 \<and> 2 < length (arrays h6 (yinBuffer y6)) \<and>
   h_get (asf y6 0 h6) (yinBuffer y6) 2 =
     Some (fround (cmndf (arrays h6 0) (length (arrays h6 (yinBuffer y6))) 2))"
  using asf_cmndf [of 0 y6 2 h6] by (simp add: example6_fields del: fround.simps)

theorem asf_cmndf_unrounded_counterexample:
  "h_get (asf y6 0 h6) (yinBuffer y6) 2 = Some (Fin (11184811 / 16777216)) \<and>
   cmndf (arrays h6 0) (length (arrays h6 (yinBuffer y6))) 2
     = Fin (6004799503160661 / 9007199254740992) \<and>
   h_get (asf y6 0 h6) (yinBuffer y6) 2
     \<noteq> Some (cmndf (arrays h6 0) (length (arrays h6 (yinBuffer y6))) 2)"
proof -
  have "arrays (asf y6 0 h6) (yinBuffer y6) ! 2 =
          fround (cmndf (arrays h6 0) (length (arrays h6 (yinBuffer y6))) 2)"
    by (rule asf_value) (simp_all add: example6_fields)
  then have "h_get (asf y6 0 h6) (yinBuffer y6) 2 = Some (Fin (11184811 / 16777216))"
    by (simp add: h_get_def typed_get_def asf_length example6_fields cmndf6 fround_two_thirds
        del: fround.simps)
  then show ?thesis
    by (simp add: example6_fields cmndf6)
qed

subsection \<open>C2: the result of \<open>getPitch\<close>\<close>

text \<open>
  C2 says that \<open>getPitch\<close> returns a positive frequency or \<open>-1\<close>, and \<open>-1\<close> exactly
  when no period is found. For \<open>new Yin(4, 8000)\<close> and four zeros, an input the
  estimator accepts, the code returns NaN: the scratch array has two cells, the lag stays
  at 2, and the interpolation reads the cells 1, 2 and 3. (\<open>estimatePeriod_not_null\<close>:
  the branch that returns \<open>-1\<close> is never taken.)
\<close>

theorem getPitch_silence:
  "constructor (Fin 4) (Fin 8000) Undefined (samples_heap [Fin 0, Fin 0, Fin 0, Fin 0])
     = Inr (y4, h4) \<and>
   getPitch y4 0 h4 \<noteq> (Inl (TypeError ''Incorrect buffer size''), h4) \<and>
   fst (getPitch y4 0 h4) = Inr NaN"
proof -
  have c: "constructor (Fin 4) (Fin 8000) Undefined (samples_heap [Fin 0, Fin 0, Fin 0, Fin 0])
     = Inr (y4, h4)"
    by (rule example4)
  have acc: "jeq (num (length (arrays h4 0))) (bufferLength y4)"
    by (simp add: example4_fields(1,4) jeq_def num_def)
  have "length (arrays (asf y4 0 h4) (yinBuffer y4)) \<le> 3"
    by (simp add: asf_length example4_fields)
  then have "refined_period (arrays (asf y4 0 h4) (yinBuffer y4)) (chosen_tau y4 (asf y4 0 h4)) = NaN"
    by (rule refined_period_short) (rule chosen_tau_ge)
  then have "fst (getPitch y4 0 h4) = Inr NaN"
    by (simp add: getPitch_accepted [OF acc] jdiv_def)
  with c acc show ?thesis
    by (simp add: getPitch_accepted)
qed

subsection \<open>C3: the lag the threshold search stops at\<close>

text \<open>
  C3 says that the search always ends at a lag in \<open>[2, maxLag]\<close>. Both loops are total
  functions, so the search always ends; the lag is at least 2; it is at most \<open>maxLag\<close>
  when the scratch array has three cells or more. With fewer cells \<open>maxLag\<close> is below 2
  and the search ends at once at the lag 2, above \<open>maxLag\<close>: so for \<open>new Yin(4, 8000)\<close>.

  C3, as amended: the search always terminates at a lag of at least 2; when
  \<open>L \<ge> 3\<close> (a frame of six samples or more) that lag is in \<open>[2, maxLag]\<close>, and when
  \<open>L < 3\<close> it is 2.
\<close>

theorem chosen_tau_range:
  "(3 \<le> length (arrays h (yinBuffer y)) \<longrightarrow>
      2 \<le> chosen_tau y h \<and> int (chosen_tau y h) \<le> int (length (arrays h (yinBuffer y))) - 1) \<and>
   (length (arrays h (yinBuffer y)) < 3 \<longrightarrow> chosen_tau y h = 2)"
  using chosen_tau_ge [of y h] chosen_tau_le [of h y] chosen_tau_immediate [of h y] by simp

theorem chosen_tau_range_witness:
  "3 \<le> length (arrays (asf y8 0 h8) (yinBuffer y8)) \<and>
   2 \<le> chosen_tau y8 (asf y8 0 h8) \<and>
   int (chosen_tau y8 (asf y8 0 h8)) \<le> int (length (arrays (asf y8 0 h8) (yinBuffer y8))) - 1"
  using chosen_tau_range [of "asf y8 0 h8" y8] by (simp add: asf_length example8_fields)

theorem chosen_tau_range_counterexample:
  "\<not> (2 \<le> chosen_tau y4 (asf y4 0 h4) \<and>
      int (chosen_tau y4 (asf y4 0 h4)) \<le> int (length (arrays (asf y4 0 h4) (yinBuffer y4))) - 1)"
proof -
  have "chosen_tau y4 (asf y4 0 h4) = 2"
    by (rule chosen_tau_immediate) (simp add: asf_length example4_fields)
  then show ?thesis
    by (simp add: asf_length example4_fields)
qed

subsection \<open>C4: the interpolation and the frequency\<close>

text \<open>
  C4: for an accepted input, \<open>getPitch\<close> returns \<open>sampleRate / period\<close>, where, for the
  lag \<open>tau\<close> the search stopped at and the scratch array \<open>_asf\<close> left, the period is
  \<open>tau\<close> when \<open>den\<close> is 0 and \<open>tau + delta / (2 * den)\<close> otherwise, with
  \<open>delta = b[tau - 1] - b[tau + 1]\<close> and \<open>den = b[tau + 1] - 2 * b[tau] + b[tau - 1]\<close>
  (\<open>refined_period\<close>; the lag is at least 2, so \<open>tau - 1\<close> is a cell index).
\<close>

theorem getPitch_refined:
  assumes "jeq (num (length (arrays h data))) (bufferLength y)"
  shows "fst (getPitch y data h) =
           Inr (jdiv (sampleRate y)
                  (refined_period (arrays (asf y data h) (yinBuffer y)) (chosen_tau y (asf y data h))))"
  by (simp add: getPitch_accepted [OF assms])

theorem getPitch_refined_witness:
  "jeq (num (length (arrays h8 0))) (bufferLength y8) \<and>
   fst (getPitch y8 0 h8) =
     Inr (jdiv (sampleRate y8)
            (refined_period (arrays (asf y8 0 h8) (yinBuffer y8)) (chosen_tau y8 (asf y8 0 h8)))) \<and>
   refined_period (arrays (asf y8 0 h8) (yinBuffer y8)) (chosen_tau y8 (asf y8 0 h8))
     = Fin (4278419646001971 / 2251799813685248)"
proof -
  have acc: "jeq (num (length (arrays h8 0))) (bufferLength y8)"
    by (simp add: example8_fields(2,5) jeq_def num_def)
  with getPitch_refined [OF acc] show ?thesis
    by (simp add: buffer8 chosen_tau8 refined_period8)
qed

subsection \<open>C5: the first cell of the scratch array\<close>

text \<open>
  C5 says that the cell 0 of the scratch array is 1 after \<open>_asf\<close>, for every accepted
  input. \<open>new Yin(0, 8000)\<close> is built with an empty scratch array and accepts the empty
  input; the write to the cell 0 is dropped and the cell reads \<open>undefined\<close>.

  C5, as amended: when the scratch array is not empty (a frame of two samples or more),
  its cell 0 is 1 after \<open>_asf\<close>, whatever the samples.
\<close>

theorem asf_first:
  "0 < length (arrays h (yinBuffer y)) \<Longrightarrow> h_get (asf y data h) (yinBuffer y) 0 = Some (Fin 1)"
  by (simp add: h_get_def typed_get_def asf_length asf_zero)

theorem asf_first_witness:
  "0 < length (arrays h6 (yinBuffer y6)) \<and> h_get (asf y6 0 h6) (yinBuffer y6) 0 = Some (Fin 1)"
  using asf_first [of h6 y6 0] by (simp add: example6_fields)

theorem asf_first_counterexample:
  "getPitch y0 0 h0 \<noteq> (Inl (TypeError ''Incorrect buffer size''), h0) \<and>
   h_get (asf y0 0 h0) (yinBuffer y0) 0 = None"
proof -
  have acc: "jeq (num (length (arrays h0 0))) (bufferLength y0)"
    by (simp add: example0_fields jeq_def num_def)
  have "length (arrays (asf y0 0 h0) (yinBuffer y0)) = 0"
    by (simp add: asf_length example0_fields)
  then show ?thesis
    using acc by (simp add: getPitch_accepted h_get_def typed_get_def)
qed

subsection \<open>C6: the check of the buffer length\<close>

text \<open>
  C6 says that the constructor rejects every buffer length that is not a positive even
  integer. The check is \<open>bufferLength & 1\<close>, the parity of the length converted to 32
  bits: \<open>new Yin(0, 8000)\<close> is built.

  C6, as amended: for an integer buffer length, the constructor fails with the error of
  the buffer length exactly when the length is odd; zero and the negative even integers
  pass this check.
\<close>

theorem constructor_bufferLength_check:
  "constructor (Fin (of_int n)) sr th h
     = Inl (TypeError ''The buffer length must be a multiple of two'') \<longleftrightarrow> odd n"
proof (cases "odd n")
  case True
  then show ?thesis
    using and_ToInt32 [of n] by (simp add: constructor_def)
next
  case False
  then have "and (ToInt32 (Fin (of_int n))) 1 = 0"
    using and_ToInt32 [of n] by simp
  then show ?thesis
    using False
    by (auto simp: constructor_def Let_def dest: new_Float32Array_error
        split: jsval.splits sum.splits)
qed

theorem constructor_zero_counterexample:
  "constructor (Fin 0) (Fin 8000) Undefined (samples_heap []) = Inr (y0, h0)"
  by (rule example0)

subsection \<open>C7: the check of the threshold\<close>

text \<open>
  C7 says that the constructor rejects every threshold that is not strictly between 0
  and 1, NaN included. Both comparisons of the check are false for NaN:
  \<open>new Yin(4, 8000, NaN)\<close> is built, with the threshold NaN.
\<close>

theorem constructor_NaN_threshold:
  "constructor (Fin 4) (Fin 8000) (Number NaN) (samples_heap [Fin 0, Fin 0, Fin 0, Fin 0])
     = Inr (y4\<lparr>threshold := NaN\<rparr>, h4)"
  by (simp add: constructor_def new_Float32Array_def samples_heap_def y4_def h4_def
      ToInt32_small sampleRate_8000_checks half_lengths NaN_propagates
      fround_small numeral_2_eq_2 del: fround.simps)

subsection \<open>C8: two calls in a row\<close>

text \<open>
  C8: calling \<open>getPitch\<close> a second time with identical input (the same array, or
  another array with the same samples), in the heap the first call left, gives the same
  result as the first call: the same number, the same NaN or the same error. The
  hypothesis, that an input is not the scratch array unless that array is empty, holds
  for every input an estimator built by the constructor accepts
  (\<open>accepted_input_not_scratch\<close>).
\<close>

theorem getPitch_deterministic:
  assumes "data \<noteq> yinBuffer y \<or> arrays h (yinBuffer y) = []"
    and "data' \<noteq> yinBuffer y \<or> arrays h (yinBuffer y) = []"
    and "arrays h data' = arrays h data"
  shows "fst (getPitch y data' (snd (getPitch y data h))) = fst (getPitch y data h)"
proof (cases "jeq (num (length (arrays h data))) (bufferLength y)")
  case False
  then show ?thesis using assms(3) by (simp add: getPitch_rejected)
next
  case True
  let ?h1 = "asf y data h"
  have first: "getPitch y data h =
      (Inr (jdiv (sampleRate y)
              (refined_period (arrays ?h1 (yinBuffer y)) (chosen_tau y ?h1))), ?h1)"
    by (rule getPitch_accepted [OF True])
  have "arrays (snd (getPitch y data h)) data' = arrays h data'"
  proof (cases "data' = yinBuffer y")
    case True
    with assms(2) show ?thesis using getPitch_arrays(1) [OF assms(1)] assms(3)
      by (cases "data = yinBuffer y") (simp_all add: first asf_empty)
  next
    case False
    then show ?thesis by (rule getPitch_arrays(2) [OF assms(1)])
  qed
  then have data1: "arrays ?h1 data' = arrays h data" using first assms(3) by simp
  have again: "arrays (asf y data' ?h1) (yinBuffer y) = arrays ?h1 (yinBuffer y)"
    by (rule asf_again [OF assms])
  have "jeq (num (length (arrays ?h1 data'))) (bufferLength y)"
    using True data1 by simp
  then have second: "getPitch y data' ?h1 =
      (Inr (jdiv (sampleRate y)
              (refined_period (arrays (asf y data' ?h1) (yinBuffer y))
                 (chosen_tau y (asf y data' ?h1)))), asf y data' ?h1)"
    by (rule getPitch_accepted)
  have "chosen_tau y (asf y data' ?h1) = chosen_tau y ?h1"
    by (rule chosen_tau_cong [OF again])
  then show ?thesis
    by (simp add: first second again)
qed

theorem getPitch_deterministic_witness:
  "(0::nat) \<noteq> yinBuffer y8 \<and>
   fst (getPitch y8 0 h8) = Inr (Fin (4629522643267369 / 1099511627776)) \<and>
   fst (getPitch y8 0 (snd (getPitch y8 0 h8))) = Inr (Fin (4629522643267369 / 1099511627776))"
  using getPitch_deterministic [of 0 y8 h8 0] by (simp add: example8_fields example8_pitch)

subsection \<open>C9: what \<open>getPitch\<close> changes\<close>

text \<open>
  C9: \<open>getPitch\<close> leaves the input array as it was, leaves every array but the scratch
  array as it was, allocates nothing, and keeps the length of the scratch array. The
  hypothesis holds for every input an estimator built by the constructor accepts
  (\<open>accepted_input_not_scratch\<close>). The estimator is a frozen object, a value no method
  changes: its three configuration fields are the arguments of the constructor
  (\<open>constructor_fields\<close>).
\<close>

theorem getPitch_frame:
  assumes "data \<noteq> yinBuffer y \<or> arrays h (yinBuffer y) = []"
  shows "arrays (snd (getPitch y data h)) data = arrays h data \<and>
         (\<forall>r. r \<noteq> yinBuffer y \<longrightarrow> arrays (snd (getPitch y data h)) r = arrays h r) \<and>
         next_ref (snd (getPitch y data h)) = next_ref h \<and>
         length (arrays (snd (getPitch y data h)) (yinBuffer y)) = length (arrays h (yinBuffer y))"
  using getPitch_arrays [OF assms] by simp

theorem getPitch_frame_witness:
  "(0::nat) \<noteq> yinBuffer y6 \<and>
   arrays (snd (getPitch y6 0 h6)) 0 = [Fin 0, Fin 1, Fin 0, Fin 0, Fin 0, Fin 0] \<and>
   next_ref (snd (getPitch y6 0 h6)) = 2 \<and>
   length (arrays (snd (getPitch y6 0 h6)) (yinBuffer y6)) = 3"
  using getPitch_frame [of 0 y6 h6] by (simp add: example6_fields)

subsection \<open>C10: the indices read\<close>

text \<open>
  C10 says that every read of the scratch array is within \<open>[0, L - 1]\<close>. The
  interpolation reads the cell \<open>tau + 1\<close>, and the search can stop at \<open>tau = maxLag =
  L - 1\<close>: for \<open>new Yin(6, 8000)\<close> and any accepted input the scratch array has three
  cells, the search stops at 2 and the cell 3 is read, which is \<open>undefined\<close>.
\<close>

theorem estimatePeriod_reads_past_end:
  "getPitch y6 0 h6 \<noteq> (Inl (TypeError ''Incorrect buffer size''), h6) \<and>
   length (arrays (asf y6 0 h6) (yinBuffer y6)) = 3 \<and>
   chosen_tau y6 (asf y6 0 h6) = 2 \<and>
   h_get (asf y6 0 h6) (yinBuffer y6) (chosen_tau y6 (asf y6 0 h6) + 1) = None"
proof -
  have acc: "jeq (num (length (arrays h6 0))) (bufferLength y6)"
    by (simp add: example6_fields(2,6) jeq_def num_def)
  have len: "length (arrays (asf y6 0 h6) (yinBuffer y6)) = 3"
    by (simp add: asf_length example6_fields)
  then have "chosen_tau y6 (asf y6 0 h6) = 2"
    by (intro chosen_tau_immediate) simp
  with acc len show ?thesis
    by (simp add: getPitch_accepted h_get_def typed_get_def)
qed

end
